theory Spec2Isabelle
  imports Main "HOL-Library.Sublist"
begin

section \<open>Strings of the host language\<close>

text \<open>
  The program is JavaScript (\<^verbatim>\<open>app.js\<close>). A string is modelled as a \<^typ>\<open>string\<close>, one
  \<^typ>\<open>char\<close> for each code unit below 256; code units above that range are outside the
  model. \<^verbatim>\<open>undefined\<close> is \<^term>\<open>None\<close> of an option type.
\<close>

text \<open>
  \<^verbatim>\<open>String.prototype.split(separator)\<close> with a string separator. Every call site of the
  program passes a non-empty separator (\<^verbatim>\<open>'\n\n'\<close>, \<^verbatim>\<open>'\n'\<close>, \<^verbatim>\<open>' '\<close>). The pieces between
  successive, non-overlapping occurrences of the separator are returned, empty pieces
  included; the empty string gives one empty piece.
\<close>

fun split_from :: "string \<Rightarrow> string \<Rightarrow> string \<Rightarrow> string list" where
  "split_from sep cur [] = [cur]"
| "split_from sep cur (c # cs) =
     (if sep \<noteq> [] \<and> prefix sep (c # cs)
      then cur # split_from sep [] (drop (length sep) (c # cs))
      else split_from sep (cur @ [c]) cs)"

definition split :: "string \<Rightarrow> string \<Rightarrow> string list" where
  "split s sep = split_from sep [] s"

text \<open>\<^verbatim>\<open>Array.prototype.join(separator)\<close> on an array of strings.\<close>

fun join :: "string list \<Rightarrow> string \<Rightarrow> string" where
  "join [] sep = []"
| "join [x] sep = x"
| "join (x # y # ys) sep = x @ sep @ join (y # ys) sep"

text \<open>
  \<^verbatim>\<open>String.prototype.trim()\<close> strips white space and line terminators from both ends; below
  256 these are TAB, LF, VT, FF, CR, SPACE and NBSP.
\<close>

definition whiteSpace :: "char \<Rightarrow> bool" where
  "whiteSpace c \<longleftrightarrow> c \<in> set [CHR 0x09, CHR 0x0A, CHR 0x0B, CHR 0x0C, CHR 0x0D, CHR 0x20, CHR 0xA0]"

definition trim :: "string \<Rightarrow> string" where
  "trim s = rev (dropWhile whiteSpace (rev (dropWhile whiteSpace s)))"

text \<open>
  \<^verbatim>\<open>[...new Set(list)]\<close>: a Set keeps its elements in insertion order, and adding an element
  that is already there changes nothing.
\<close>

definition set_add :: "'a list \<Rightarrow> 'a \<Rightarrow> 'a list" where
  "set_add acc x = (if x \<in> set acc then acc else acc @ [x])"

definition new_Set :: "'a list \<Rightarrow> 'a list" where
  "new_Set xs = foldl set_add [] xs"

section \<open>Regular expressions\<close>

text \<open>
  The fragment of the regular expressions of the program: a sequence of pieces, each a single
  character matcher, possibly under a quantifier, or the end assertion \<^verbatim>\<open>$\<close> (no \<^verbatim>\<open>m\<close> flag:
  end of input only). The dot matches every character but a line terminator.
\<close>

datatype atom = Lit char | OneOf "char list" | Dot

datatype piece = One atom | Star atom | Plus atom | LazyStar atom | End

definition lineTerminator :: "char \<Rightarrow> bool" where
  "lineTerminator c \<longleftrightarrow> c = CHR 0x0A \<or> c = CHR 0x0D"

fun accepts :: "atom \<Rightarrow> char \<Rightarrow> bool" where
  "accepts (Lit a) c = (c = a)"
| "accepts (OneOf as) c = (c \<in> set as)"
| "accepts Dot c = (\<not> lineTerminator c)"

text \<open>
  The backtracking matcher, at the start of the given string. The result is the number of
  characters each piece consumed on the first branch that succeeds: a greedy quantifier tries
  one more repetition before it tries the rest of the pattern, a lazy one the other way round.
\<close>

fun rx_at :: "piece list \<Rightarrow> string \<Rightarrow> nat list option" where
  "rx_at [] s = Some []"
| "rx_at (End # ps) s = (if s = [] then map_option ((#) 0) (rx_at ps s) else None)"
| "rx_at (One a # ps) [] = None"
| "rx_at (One a # ps) (c # cs) =
     (if accepts a c then map_option ((#) 1) (rx_at ps cs) else None)"
| "rx_at (Star a # ps) [] = map_option ((#) 0) (rx_at ps [])"
| "rx_at (Star a # ps) (c # cs) =
     (if accepts a c
      then (case rx_at (Star a # ps) cs of
              Some (n # ns) \<Rightarrow> Some (Suc n # ns)
            | _ \<Rightarrow> map_option ((#) 0) (rx_at ps (c # cs)))
      else map_option ((#) 0) (rx_at ps (c # cs)))"
| "rx_at (Plus a # ps) [] = None"
| "rx_at (Plus a # ps) (c # cs) =
     (if accepts a c
      then (case rx_at (Star a # ps) cs of
              Some (n # ns) \<Rightarrow> Some (Suc n # ns)
            | _ \<Rightarrow> None)
      else None)"
| "rx_at (LazyStar a # ps) [] = map_option ((#) 0) (rx_at ps [])"
| "rx_at (LazyStar a # ps) (c # cs) =
     (case rx_at ps (c # cs) of
        Some ns \<Rightarrow> Some (0 # ns)
      | None \<Rightarrow>
          (if accepts a c
           then (case rx_at (LazyStar a # ps) cs of
                   Some (n # ns) \<Rightarrow> Some (Suc n # ns)
                 | _ \<Rightarrow> None)
           else None))"

text \<open>
  A regular expression of the program: its pieces, whether it starts with \<^verbatim>\<open>^\<close> (no \<^verbatim>\<open>m\<close>
  flag: start of input only), and the index of the piece its capture group encloses.
\<close>

record regex =
  anchored :: bool
  pieces :: "piece list"
  group1 :: nat

text \<open>
  The first match at or after the start of the string: the text skipped ahead of it, and the
  consumption of each piece.
\<close>

fun search :: "regex \<Rightarrow> string \<Rightarrow> string \<Rightarrow> (string \<times> nat list) option" where
  "search re skipped [] = map_option (Pair skipped) (rx_at (pieces re) [])"
| "search re skipped (c # cs) =
     (case rx_at (pieces re) (c # cs) of
        Some ns \<Rightarrow> Some (skipped, ns)
      | None \<Rightarrow> if anchored re then None else search re (skipped @ [c]) cs)"

text \<open>
  \<^verbatim>\<open>String.prototype.match(regexp)\<close> for a regular expression without the \<^verbatim>\<open>g\<close> flag:
  \<^verbatim>\<open>null\<close> (here \<^term>\<open>None\<close>) or the array of the matched text and the text of group 1.
\<close>

definition match :: "string \<Rightarrow> regex \<Rightarrow> string list option" where
  "match s re =
     (case search re [] s of
        None \<Rightarrow> None
      | Some (skipped, ns) \<Rightarrow>
          let rest = drop (length skipped) s in
          Some [take (sum_list ns) rest,
                take (ns ! group1 re) (drop (sum_list (take (group1 re) ns)) rest)])"

text \<open>
  \<^verbatim>\<open>String.prototype.replace(regexp, '')\<close> for a regular expression with the \<^verbatim>\<open>g\<close> flag and the
  empty replacement: every match, found left to right, is removed; after an empty match
  the scan moves on by one character.
\<close>

function replace_g :: "string \<Rightarrow> piece list \<Rightarrow> string" where
  "replace_g [] ps = []"
| "replace_g (c # cs) ps =
     (case rx_at ps (c # cs) of
        None \<Rightarrow> c # replace_g cs ps
      | Some ns \<Rightarrow>
          if sum_list ns = 0 then c # replace_g cs ps
          else replace_g (drop (sum_list ns) (c # cs)) ps)"
  by pat_completeness auto
termination
  by (relation "measure (\<lambda>(s, ps). length s)") (auto dest!: member_le_sum_list)

section \<open>The constants of the program\<close>

text \<open>Lines 18 to 34 of \<^verbatim>\<open>app.js\<close>: the six regular expressions.\<close>

definition hws :: atom where
  \<comment> \<open>the character class \<^verbatim>\<open>[ |\t]\<close>\<close>
  "hws = OneOf [CHR '' '', CHR ''|'', CHR 0x09]"

definition field_line :: "string \<Rightarrow> regex" where
  \<comment> \<open>\<^verbatim>\<open>/^Field:[ |\t]*(.+)[ |\t]*$/\<close>\<close>
  "field_line f =
     \<lparr>anchored = True,
      pieces = map (\<lambda>c. One (Lit c)) f @ [Star hws, Plus Dot, Star hws, End],
      group1 = length f + 1\<rparr>"

definition packageNameParser :: regex where
  "packageNameParser = field_line ''Package:''"

definition descriptionSummaryParser :: regex where
  "descriptionSummaryParser = field_line ''Description:''"

definition dependencyParser :: regex where
  "dependencyParser = field_line ''Depends:''"

definition startsWithWhitespaceParser :: regex where
  \<comment> \<open>\<^verbatim>\<open>/^[ |\t]+/\<close>\<close>
  "startsWithWhitespaceParser = \<lparr>anchored = True, pieces = [Plus hws], group1 = 0\<rparr>"

definition versionParser :: "piece list" where
  \<comment> \<open>\<^verbatim>\<open>/ \(.*?\)/g\<close>\<close>
  "versionParser = [One (Lit CHR '' ''), One (Lit CHR ''(''), LazyStar Dot, One (Lit CHR '')'')]"

definition commasParser :: "piece list" where
  \<comment> \<open>\<^verbatim>\<open>/,/g\<close>\<close>
  "commasParser = [One (Lit CHR '','')]"

section \<open>The parser\<close>

text \<open>
  The functions of \<^verbatim>\<open>app.js\<close>, under their names. \<^verbatim>\<open>getFile(source)\<close> (lines 107 to 109)
  reads the control file; here its text is an argument (\<open>file\<close>) of the two queries
  \<open>getPackageNames\<close> and \<open>getInfoFor\<close>, and of \<open>getAsParagraphs\<close>.
\<close>

text \<open>Lines 213 to 256: the helpers that split, join and strip.\<close>

definition splitIntoParagraphs :: "string \<Rightarrow> string list" where
  "splitIntoParagraphs textData = split textData [CHR 0x0A, CHR 0x0A]"

definition splitIntoLines :: "string \<Rightarrow> string list" where
  "splitIntoLines textData = split textData [CHR 0x0A]"

definition getAsParagraphs :: "string \<Rightarrow> string list" where
  "getAsParagraphs file = splitIntoParagraphs file"

definition joinDescriptionLines :: "string list \<Rightarrow> string" where
  "joinDescriptionLines description = trim (join description [])"

definition parseDependencyString :: "string \<Rightarrow> string" where
  "parseDependencyString dependencies =
     replace_g (replace_g dependencies versionParser) commasParser"

text \<open>
  Lines 127 to 144 and 175 to 184. The three scans return at the first matching line. A scan
  that falls off the end of \<open>getNameFrom\<close> or \<open>getSummaryFrom\<close> returns \<^verbatim>\<open>undefined\<close>;
  \<open>getDependenciesFrom\<close> returns the empty string.
\<close>

fun getNameFrom :: "string list \<Rightarrow> string option" where
  "getNameFrom [] = None"
| "getNameFrom (line # packageInfo) =
     (case match line packageNameParser of
        Some nameMatch \<Rightarrow> Some (nameMatch ! 1)
      | None \<Rightarrow> getNameFrom packageInfo)"

fun getSummaryFrom :: "string list \<Rightarrow> string option" where
  "getSummaryFrom [] = None"
| "getSummaryFrom (line # packageInfo) =
     (case match line descriptionSummaryParser of
        Some descriptionMatch \<Rightarrow> Some (descriptionMatch ! 1)
      | None \<Rightarrow> getSummaryFrom packageInfo)"

fun getDependenciesFrom :: "string list \<Rightarrow> string" where
  "getDependenciesFrom [] = []"
| "getDependenciesFrom (line # packageInfo) =
     (case match line dependencyParser of
        Some dependencyMatch \<Rightarrow> parseDependencyString (dependencyMatch ! 1)
      | None \<Rightarrow> getDependenciesFrom packageInfo)"

text \<open>
  Lines 151 to 168. The loop of \<open>getDescriptionFrom\<close>, with its two variables
  \<open>description\<close> and \<open>saveDescription\<close> as arguments: a line that starts with white space
  while \<open>saveDescription\<close> holds is pushed; any other line sets \<open>saveDescription\<close> to
  whether it matches the \<^verbatim>\<open>Description:\<close> pattern.
\<close>

fun description_loop :: "string list \<Rightarrow> bool \<Rightarrow> string list \<Rightarrow> string list" where
  "description_loop description saveDescription [] = description"
| "description_loop description saveDescription (line # packageInfo) =
     (if match line startsWithWhitespaceParser \<noteq> None \<and> saveDescription
      then description_loop (description @ [line]) saveDescription packageInfo
      else description_loop description
             (match line descriptionSummaryParser \<noteq> None) packageInfo)"

definition getDescriptionFrom :: "string list \<Rightarrow> string" where
  "getDescriptionFrom packageInfo =
     joinDescriptionLines (description_loop [] False packageInfo)"

text \<open>Lines 117 to 120.\<close>

definition isDependentOn :: "string \<Rightarrow> string list \<Rightarrow> bool" where
  "isDependentOn nameToFind packageInfo =
     (let dependencies = getDependenciesFrom packageInfo
      in nameToFind \<in> set (split dependencies '' ''))"

record dependency =
  name :: string
  found :: bool

text \<open>
  Lines 192 to 206. \<open>allPackageNames\<close> holds what \<open>getNameFrom\<close> returned for each
  paragraph, so \<^verbatim>\<open>undefined\<close> as well; \<^verbatim>\<open>includes\<close> compares a string with its elements.
  The empty string is falsy.
\<close>

definition findDependenciesFor :: "string \<Rightarrow> string option list \<Rightarrow> dependency list" where
  "findDependenciesFor dependenciesAsString allPackageNames =
     (if dependenciesAsString \<noteq> []
      then let dependencyList = split dependenciesAsString '' '';
               uniqueDependencies = new_Set dependencyList
           in map (\<lambda>dependency.
                     \<lparr>name = dependency, found = (Some dependency \<in> set allPackageNames)\<rparr>)
                uniqueDependencies
      else [])"

text \<open>Lines 42 to 54. \<open>getPackageNames\<close>: one pass over the lines of the whole file.\<close>

definition getPackageNames :: "string \<Rightarrow> string list" where
  "getPackageNames file =
     foldl (\<lambda>names line.
              case match line packageNameParser of
                Some m \<Rightarrow> names @ [m ! 1]
              | None \<Rightarrow> names)
       [] (splitIntoLines file)"

text \<open>
  Lines 63 to 100. \<open>getInfoFor\<close>: the variables of the function as a record (three of
  them with a suffix, since the returned object has fields of the same names), the body of
  its loop as a step on it, and the object it returns. \<open>packageName\<close> is a string, so the
  strict equality with \<open>currentName\<close> is false when that is \<^verbatim>\<open>undefined\<close>.
\<close>

record locals =
  summary_var :: "string option"
  description_var :: string
  dependenciesTemp :: string
  dependents_var :: "string option list"
  allPackageNames :: "string option list"

definition locals0 :: locals where
  "locals0 =
     \<lparr>summary_var = Some [], description_var = [], dependenciesTemp = [],
      dependents_var = [], allPackageNames = []\<rparr>"

definition loop_body :: "string \<Rightarrow> locals \<Rightarrow> string \<Rightarrow> locals" where
  "loop_body packageName v package =
     (let lines = splitIntoLines package;
          currentName = getNameFrom lines;
          v = v\<lparr>allPackageNames := allPackageNames v @ [currentName]\<rparr>;
          isCorrectPackage = (currentName = Some packageName)
      in if \<not> isCorrectPackage \<and> isDependentOn packageName lines
         then v\<lparr>dependents_var := dependents_var v @ [currentName]\<rparr>
         else if \<not> isCorrectPackage then v
         else v\<lparr>summary_var := getSummaryFrom lines,
                description_var := getDescriptionFrom lines,
                dependenciesTemp := getDependenciesFrom lines\<rparr>)"

definition scan :: "string \<Rightarrow> string \<Rightarrow> locals" where
  "scan file packageName = foldl (loop_body packageName) locals0 (getAsParagraphs file)"

record details =
  summary :: "string option"
  description :: string
  depends :: "dependency list"
  dependents :: "string option list"

definition getInfoFor :: "string \<Rightarrow> string \<Rightarrow> details" where
  "getInfoFor file packageName =
     (let v = scan file packageName;
          dependencies = findDependenciesFor (dependenciesTemp v) (allPackageNames v)
      in \<lparr>summary = summary_var v, description = description_var v,
          depends = dependencies, dependents = dependents_var v\<rparr>)"

section \<open>Notions of the specification\<close>

text \<open>
  The Package value of a stanza, its flat dependency token list as \<open>isDependentOn\<close> reads
  it, and the test that lists a stanza among the dependents of a queried name.
\<close>

definition stanza_name :: "string \<Rightarrow> string option" where
  "stanza_name p = getNameFrom (splitIntoLines p)"

definition stanza_tokens :: "string \<Rightarrow> string list" where
  "stanza_tokens p = split (getDependenciesFrom (splitIntoLines p)) '' ''"

definition is_dependent :: "string \<Rightarrow> string \<Rightarrow> bool" where
  "is_dependent q p \<longleftrightarrow> stanza_name p \<noteq> Some q \<and> q \<in> set (stanza_tokens p)"

text \<open>
  The target of a detail query is the last stanza of the file that carries the queried name;
  its dependency token sequence is empty when it has no dependency text.
\<close>

definition target_stanza :: "string \<Rightarrow> string \<Rightarrow> string option" where
  "target_stanza file q =
     (case filter (\<lambda>p. stanza_name p = Some q) (getAsParagraphs file) of
        [] \<Rightarrow> None
      | p # ps \<Rightarrow> Some (last (p # ps)))"

definition target_tokens :: "string \<Rightarrow> string \<Rightarrow> string list" where
  "target_tokens file q =
     (case target_stanza file q of
        None \<Rightarrow> []
      | Some p \<Rightarrow>
          let d = getDependenciesFrom (splitIntoLines p)
          in if d = [] then [] else split d '' '')"

text \<open>
  The Package value that a single line yields, and the lines that the description scan takes
  for continuation lines: those that begin with a character of the class \<^verbatim>\<open>[ |\t]\<close>.
\<close>

definition package_value :: "string \<Rightarrow> string option" where
  "package_value line = map_option (\<lambda>m. m ! 1) (match line packageNameParser)"

definition continuation_line :: "string \<Rightarrow> bool" where
  "continuation_line l \<longleftrightarrow> l \<noteq> [] \<and> accepts hws (hd l)"

text \<open>Deduplication that keeps the first occurrence of each element, in order.\<close>

fun first_occurrences :: "'a list \<Rightarrow> 'a list" where
  "first_occurrences [] = []"
| "first_occurrences (x # xs) = x # first_occurrences (filter (\<lambda>y. y \<noteq> x) xs)"

text \<open>
  A version constraint at the start of a string: a space, an opening parenthesis, and the
  text up to the first closing parenthesis, with no line terminator in between.
  \<open>closing\<close> is the position of that closing parenthesis, \<open>version_at\<close> the length of the
  constraint, and \<open>strip_versions\<close> removes every constraint, left to right.
\<close>

fun closing :: "string \<Rightarrow> nat option" where
  "closing [] = None"
| "closing (c # cs) =
     (if c = CHR '')'' then Some 0
      else if lineTerminator c then None
      else map_option Suc (closing cs))"

fun version_at :: "string \<Rightarrow> nat option" where
  "version_at (a # b # r) =
     (if a = CHR '' '' \<and> b = CHR ''('' then map_option (\<lambda>k. k + 3) (closing r) else None)"
| "version_at _ = None"

function strip_versions :: "string \<Rightarrow> string" where
  "strip_versions [] = []"
| "strip_versions (c # cs) =
     (case version_at (c # cs) of
        Some n \<Rightarrow> strip_versions (drop n (c # cs))
      | None \<Rightarrow> c # strip_versions cs)"
  by pat_completeness auto
termination
proof (relation "measure length")
  fix c cs n
  assume "version_at (c # cs) = Some n"
  then have "0 < n" by (cases cs) (auto split: if_splits)
  then show "(drop n (c # cs), c # cs) \<in> measure length" by simp
qed simp_all

section \<open>Facts about the string operations\<close>

lemma split_from_not_Nil: "split_from sep cur s \<noteq> []"
  by (induction sep cur s rule: split_from.induct) auto

lemma join_Cons: "xs \<noteq> [] \<Longrightarrow> join (x # xs) sep = x @ sep @ join xs sep"
  by (cases xs) simp_all

lemma join_split_from: "join (split_from sep cur s) sep = cur @ s"
proof (induction sep cur s rule: split_from.induct)
  case (1 sep cur)
  show ?case by simp
next
  case (2 sep cur c cs)
  show ?case
  proof (cases "sep \<noteq> [] \<and> prefix sep (c # cs)")
    case True
    then have "c # cs = sep @ drop (length sep) (c # cs)"
      by (metis append_take_drop_id prefix_def append_eq_conv_conj)
    with True 2 show ?thesis
      by (simp add: join_Cons split_from_not_Nil del: drop_Suc_Cons)
  next
    case False
    with 2 show ?thesis by auto
  qed
qed

lemma join_split: "join (split s sep) sep = s"
  by (simp add: split_def join_split_from)

lemma join_empty_separator: "join xs [] = concat xs"
  by (induction xs "[] :: string" rule: join.induct) simp_all

lemma empty_piece_split_from:
  "[] \<in> set (split_from [d] cur s) \<longleftrightarrow>
     (cur = [] \<and> (s = [] \<or> hd s = d)) \<or> (s \<noteq> [] \<and> last s = d) \<or> sublist [d, d] s"
proof (induction s arbitrary: cur)
  case Nil
  show ?case by auto
next
  case (Cons c cs)
  show ?case
  proof (cases "c = d")
    case True
    have "sublist [d, d] (d # cs) \<longleftrightarrow> (cs \<noteq> [] \<and> hd cs = d) \<or> sublist [d, d] cs"
      by (cases cs) (auto simp: sublist_Cons_right)
    with True Cons[of "[]"] show ?thesis by auto
  next
    case False
    have "sublist [d, d] (c # cs) \<longleftrightarrow> sublist [d, d] cs"
      using False by (auto simp: sublist_Cons_right)
    with False Cons[of "cur @ [c]"] show ?thesis by auto
  qed
qed

lemma empty_piece_split:
  "[] \<in> set (split s [d]) \<longleftrightarrow> s = [] \<or> hd s = d \<or> last s = d \<or> sublist [d, d] s"
  by (auto simp: split_def empty_piece_split_from)

lemma foldl_set_add:
  "foldl set_add acc xs = acc @ first_occurrences (filter (\<lambda>y. y \<notin> set acc) xs)"
proof (induction xs arbitrary: acc)
  case Nil
  show ?case by simp
next
  case (Cons x xs)
  have "filter (\<lambda>y. y \<notin> set (acc @ [x])) xs =
          filter (\<lambda>y. y \<noteq> x) (filter (\<lambda>y. y \<notin> set acc) xs)"
    by (auto intro: filter_cong)
  with Cons show ?case by (simp add: set_add_def)
qed

lemma new_Set_first_occurrences: "new_Set xs = first_occurrences xs"
  by (simp add: new_Set_def foldl_set_add)

lemma foldl_set_add_set: "set (foldl set_add acc xs) = set acc \<union> set xs"
  by (induction xs arbitrary: acc) (auto simp: set_add_def)

lemma set_new_Set: "set (new_Set xs) = set xs"
  by (simp add: new_Set_def foldl_set_add_set)

section \<open>Facts about the regular expressions\<close>

lemma rx_at_literal:
  "rx_at (map (\<lambda>c. One (Lit c)) f @ ps) s =
     (if prefix f s
      then map_option ((@) (replicate (length f) 1)) (rx_at ps (drop (length f) s))
      else None)"
proof (induction f arbitrary: s)
  case Nil
  show ?case by (cases "rx_at ps s") simp_all
next
  case (Cons a f)
  show ?case
  proof (cases s)
    case Nil
    then show ?thesis by simp
  next
    case (Cons c cs)
    with Cons.IH[of cs] show ?thesis by (simp add: option.map_comp comp_def)
  qed
qed

lemma rx_at_dots:
  "\<forall>c \<in> set v. \<not> lineTerminator c \<Longrightarrow> rx_at [Star Dot, Star a, End] v = Some [length v, 0, 0]"
  by (induction v) simp_all

lemma rx_at_padding:
  assumes "\<forall>c \<in> set pad. accepts a c" and "v \<noteq> []" and "\<not> accepts a (hd v)"
    and "\<forall>c \<in> set v. \<not> lineTerminator c"
  shows "rx_at [Star a, Plus Dot, Star a, End] (pad @ v) = Some [length pad, length v, 0, 0]"
  using assms
proof (induction pad)
  case Nil
  then show ?case by (cases v) (simp_all add: rx_at_dots)
next
  case (Cons c pad)
  then show ?case by simp
qed

lemma search_anchored:
  "anchored re \<Longrightarrow> search re [] s = map_option (Pair []) (rx_at (pieces re) s)"
  by (cases s) (auto split: option.splits)

lemma match_field_line:
  assumes "\<forall>c \<in> set pad. accepts hws c" and "v \<noteq> []" and "\<not> accepts hws (hd v)"
    and "\<forall>c \<in> set v. \<not> lineTerminator c"
  shows "match (f @ pad @ v) (field_line f) = Some [f @ pad @ v, v]"
proof -
  have "rx_at (pieces (field_line f)) (f @ pad @ v) =
          Some (replicate (length f) 1 @ [length pad, length v, 0, 0])"
    using rx_at_padding[OF assms] by (simp add: field_line_def rx_at_literal)
  moreover have "anchored (field_line f)"
    by (simp add: field_line_def)
  ultimately show ?thesis
    by (simp add: match_def search_anchored field_line_def nth_append sum_list_replicate)
qed

lemma replace_commas: "replace_g s commasParser = filter (\<lambda>c. c \<noteq> CHR '','') s"
  by (induction s) (simp_all add: commasParser_def)

lemma rx_at_closing:
  "rx_at [LazyStar Dot, One (Lit CHR '')'')] s = map_option (\<lambda>k. [k, 1]) (closing s)"
proof (induction s)
  case Nil
  show ?case by simp
next
  case (Cons c cs)
  show ?case
  proof (cases "c = CHR '')''")
    case True
    then show ?thesis by simp
  next
    case False
    with Cons show ?thesis by (cases "closing cs") simp_all
  qed
qed

lemma rx_at_version:
  "rx_at versionParser s = map_option (\<lambda>n. [1, 1, n - 3, 1]) (version_at s)"
proof (cases s rule: version_at.cases)
  case (1 a b r)
  then show ?thesis
    using rx_at_closing[of r]
    by (cases "closing r") (simp_all add: versionParser_def)
qed (simp_all add: versionParser_def)

lemma version_at_ge: "version_at s = Some n \<Longrightarrow> 3 \<le> n"
  by (cases s rule: version_at.cases) (auto split: if_splits)

lemma replace_versions: "replace_g s versionParser = strip_versions s"
proof (induction s rule: strip_versions.induct)
  case 1
  show ?case by simp
next
  case (2 c cs)
  show ?case
  proof (cases "version_at (c # cs)")
    case None
    with 2 show ?thesis by (simp add: rx_at_version)
  next
    case (Some n)
    have n: "sum_list [1, 1, n - 3, 1] = n" "n \<noteq> 0"
      using version_at_ge[OF Some] by simp_all
    have "replace_g (c # cs) versionParser = replace_g (drop n (c # cs)) versionParser"
      by (simp only: replace_g.simps rx_at_version Some option.simps n if_False)
    with Some 2 show ?thesis by simp
  qed
qed

lemma rx_at_Star:
  "rx_at (Star a # ps) s = Some ns \<Longrightarrow>
     \<exists>k ms. ns = k # ms \<and> k \<le> length s \<and> rx_at ps (drop k s) = Some ms"
proof (induction s arbitrary: ns)
  case Nil
  then show ?case by auto
next
  case (Cons c cs)
  have zero: ?case if "map_option ((#) 0) (rx_at ps (c # cs)) = Some ns"
    using that by auto
  show ?case
  proof (cases "accepts a c")
    case False
    with Cons.prems zero show ?thesis by simp
  next
    case True
    show ?thesis
    proof (cases "rx_at (Star a # ps) cs")
      case None
      with True Cons.prems zero show ?thesis by simp
    next
      case (Some r)
      show ?thesis
      proof (cases r)
        case Nil
        with Some True Cons.prems zero show ?thesis by simp
      next
        case (Cons n ns')
        from Cons.IH[OF Some] Cons have "n \<le> length cs" "rx_at ps (drop n cs) = Some ns'"
          by auto
        moreover from Some Cons True Cons.prems have "ns = Suc n # ns'"
          by simp
        ultimately show ?thesis by auto
      qed
    qed
  qed
qed

lemma rx_at_Plus:
  assumes "rx_at (Plus a # ps) s = Some ns"
  shows "\<exists>n ms. ns = Suc n # ms \<and> Suc n \<le> length s"
proof (cases s)
  case Nil
  with assms show ?thesis by simp
next
  case (Cons c cs)
  with assms obtain r where r: "rx_at (Star a # ps) cs = Some r"
    by (auto split: if_splits option.splits)
  from rx_at_Star[OF r] obtain k ms where "r = k # ms" "k \<le> length cs"
    by auto
  with r assms Cons show ?thesis
    by (auto split: if_splits)
qed

lemma field_value_not_empty:
  assumes "match l (field_line f) = Some m"
  shows "m ! Suc 0 \<noteq> []"
proof -
  have s: "search (field_line f) [] l = map_option (Pair []) (rx_at (pieces (field_line f)) l)"
    by (rule search_anchored) (simp add: field_line_def)
  have g: "group1 (field_line f) = Suc (length f)"
    by (simp add: field_line_def)
  from assms obtain ns where ns: "rx_at (pieces (field_line f)) l = Some ns"
    by (cases "rx_at (pieces (field_line f)) l") (simp_all add: match_def s)
  with assms have m: "m ! Suc 0 = take (ns ! Suc (length f)) (drop (sum_list (take (Suc (length f)) ns)) l)"
    by (auto simp: match_def s g)
  from ns obtain r where l: "l = f @ r"
    and r: "map_option ((@) (replicate (length f) 1))
              (rx_at [Star hws, Plus Dot, Star hws, End] r) = Some ns"
    by (auto simp: field_line_def rx_at_literal prefix_def split: if_splits)
  from r obtain ms where ms: "rx_at [Star hws, Plus Dot, Star hws, End] r = Some ms"
    and ns': "ns = replicate (length f) 1 @ ms"
    by auto
  from rx_at_Star[OF ms] obtain k ms' where k: "ms = k # ms'" "k \<le> length r"
    "rx_at [Plus Dot, Star hws, End] (drop k r) = Some ms'"
    by auto
  from rx_at_Plus[OF k(3)] obtain n ms'' where n: "ms' = Suc n # ms''" "Suc n \<le> length r - k"
    by auto
  have "m ! Suc 0 = take (Suc n) (drop k r)"
    by (simp add: m ns' k n l nth_append sum_list_replicate)
  with n k show ?thesis by auto
qed

lemma getNameFrom_not_empty: "getNameFrom ls = Some n \<Longrightarrow> n \<noteq> []"
  by (induction ls)
    (auto simp: packageNameParser_def dest: field_value_not_empty split: option.splits)

section \<open>Facts about the scan of \<open>getInfoFor\<close>\<close>

lemma loop_body_names:
  "allPackageNames (loop_body q v p) = allPackageNames v @ [stanza_name p]"
  by (simp add: loop_body_def Let_def stanza_name_def)

lemma loop_body_dependents:
  "dependents_var (loop_body q v p) =
     dependents_var v @ (if is_dependent q p then [stanza_name p] else [])"
  by (simp add: loop_body_def Let_def stanza_name_def is_dependent_def stanza_tokens_def
      isDependentOn_def)

lemma loop_body_other:
  "stanza_name p \<noteq> Some q \<Longrightarrow>
     summary_var (loop_body q v p) = summary_var v \<and>
     description_var (loop_body q v p) = description_var v \<and>
     dependenciesTemp (loop_body q v p) = dependenciesTemp v"
  by (simp add: loop_body_def Let_def stanza_name_def)

lemma loop_body_target:
  "stanza_name p = Some q \<Longrightarrow>
     summary_var (loop_body q v p) = getSummaryFrom (splitIntoLines p) \<and>
     description_var (loop_body q v p) = getDescriptionFrom (splitIntoLines p) \<and>
     dependenciesTemp (loop_body q v p) = getDependenciesFrom (splitIntoLines p)"
  by (simp add: loop_body_def Let_def stanza_name_def)

lemma loop_names:
  "allPackageNames (foldl (loop_body q) v ps) = allPackageNames v @ map stanza_name ps"
  by (induction ps rule: rev_induct) (simp_all add: loop_body_names)

lemma loop_dependents:
  "dependents_var (foldl (loop_body q) v ps) =
     dependents_var v @ map stanza_name (filter (is_dependent q) ps)"
  by (induction ps rule: rev_induct) (simp_all add: loop_body_dependents)

lemma loop_no_target:
  "\<forall>p \<in> set ps. stanza_name p \<noteq> Some q \<Longrightarrow>
     summary_var (foldl (loop_body q) v ps) = summary_var v \<and>
     description_var (foldl (loop_body q) v ps) = description_var v \<and>
     dependenciesTemp (foldl (loop_body q) v ps) = dependenciesTemp v"
  by (induction ps rule: rev_induct) (simp_all add: loop_body_other)

lemma loop_last_target:
  assumes "stanza_name p = Some q" and "\<forall>p' \<in> set post. stanza_name p' \<noteq> Some q"
  shows "summary_var (foldl (loop_body q) v (pre @ p # post)) =
           getSummaryFrom (splitIntoLines p) \<and>
         description_var (foldl (loop_body q) v (pre @ p # post)) =
           getDescriptionFrom (splitIntoLines p) \<and>
         dependenciesTemp (foldl (loop_body q) v (pre @ p # post)) =
           getDependenciesFrom (splitIntoLines p)"
  using assms by (simp add: loop_no_target loop_body_target)

lemma description_loop_idle:
  "\<forall>l \<in> set ls. match l descriptionSummaryParser = None \<Longrightarrow>
     description_loop acc False ls = acc"
  by (induction ls) simp_all

lemma description_loop_capture:
  "\<forall>l \<in> set conts. match l startsWithWhitespaceParser \<noteq> None \<Longrightarrow>
     description_loop acc True (conts @ ls) = description_loop (acc @ conts) True ls"
  by (induction conts arbitrary: acc) simp_all

lemma description_loop_shape:
  assumes "\<forall>l \<in> set pre. match l descriptionSummaryParser = None"
    and "match d descriptionSummaryParser \<noteq> None"
    and "\<forall>l \<in> set conts. match l startsWithWhitespaceParser \<noteq> None"
    and "\<forall>l \<in> set post. match l descriptionSummaryParser = None"
    and "post \<noteq> [] \<Longrightarrow> match (hd post) startsWithWhitespaceParser = None"
  shows "description_loop [] False (pre @ d # conts @ post) = conts"
proof -
  have pre: "description_loop acc False (pre @ ls) = description_loop acc False ls" for acc ls
    using assms(1) by (induction pre) simp_all
  have post: "description_loop acc True post = acc" for acc
  proof (cases post)
    case Nil
    then show ?thesis by simp
  next
    case (Cons l ls)
    with assms(4,5) show ?thesis by (simp add: description_loop_idle)
  qed
  show ?thesis
    using assms(2,3) post description_loop_capture[of conts "[]" post]
    by (simp add: pre)
qed

lemma scan_names: "allPackageNames (scan file q) = map stanza_name (getAsParagraphs file)"
  by (simp add: scan_def loop_names locals0_def)

lemma scan_dependents:
  "dependents_var (scan file q) = map stanza_name (filter (is_dependent q) (getAsParagraphs file))"
  by (simp add: scan_def loop_dependents locals0_def)

lemma target_stanza_alt:
  "target_stanza file q =
     (let ps = filter (\<lambda>p. stanza_name p = Some q) (getAsParagraphs file)
      in if ps = [] then None else Some (last ps))"
  by (simp add: target_stanza_def Let_def split: list.splits)

lemma target_stanza_None:
  "target_stanza file q = None \<longleftrightarrow> (\<forall>p \<in> set (getAsParagraphs file). stanza_name p \<noteq> Some q)"
  by (simp add: target_stanza_alt Let_def filter_empty_conv)

lemma target_stanza_last:
  assumes "getAsParagraphs file = pre @ p # post" and "stanza_name p = Some q"
    and "\<forall>p' \<in> set post. stanza_name p' \<noteq> Some q"
  shows "target_stanza file q = Some p"
proof -
  have "filter (\<lambda>p. stanza_name p = Some q) (getAsParagraphs file) =
          filter (\<lambda>p. stanza_name p = Some q) pre @ [p]"
    using assms by (simp add: filter_empty_conv)
  then show ?thesis
    by (simp add: target_stanza_alt)
qed

lemma target_stanza_Some:
  assumes "target_stanza file q = Some p"
  shows "\<exists>pre post. getAsParagraphs file = pre @ p # post \<and> stanza_name p = Some q \<and>
           (\<forall>p' \<in> set post. stanza_name p' \<noteq> Some q)"
proof -
  from assms have "target_stanza file q \<noteq> None"
    by simp
  then have "\<exists>p \<in> set (getAsParagraphs file). stanza_name p = Some q"
    by (simp add: target_stanza_None)
  then obtain pre p' post where s: "getAsParagraphs file = pre @ p' # post"
    "stanza_name p' = Some q" "\<forall>z \<in> set post. stanza_name z \<noteq> Some q"
    using split_list_last_prop[of "getAsParagraphs file" "\<lambda>p. stanza_name p = Some q"] by blast
  with target_stanza_last[OF s] assms show ?thesis by auto
qed

lemma scan_dependenciesTemp:
  "dependenciesTemp (scan file q) =
     (case target_stanza file q of None \<Rightarrow> [] | Some p \<Rightarrow> getDependenciesFrom (splitIntoLines p))"
proof (cases "target_stanza file q")
  case None
  then have "\<forall>p \<in> set (getAsParagraphs file). stanza_name p \<noteq> Some q"
    by (simp add: target_stanza_None)
  from loop_no_target[OF this] None show ?thesis
    by (simp add: scan_def locals0_def)
next
  case (Some p)
  then obtain pre post where "getAsParagraphs file = pre @ p # post" "stanza_name p = Some q"
    "\<forall>p' \<in> set post. stanza_name p' \<noteq> Some q"
    using target_stanza_Some by blast
  with Some loop_last_target[of p q post locals0 pre] show ?thesis
    by (simp add: scan_def)
qed

lemma getInfoFor_dependents:
  "dependents (getInfoFor file q) =
     map stanza_name (filter (is_dependent q) (getAsParagraphs file))"
  by (simp add: getInfoFor_def Let_def scan_dependents)

lemma getNameFrom_None:
  "getNameFrom ls = None \<longleftrightarrow> (\<forall>l \<in> set ls. match l packageNameParser = None)"
  by (induction ls) (auto split: option.splits)

lemma parseDependencyString_spec:
  "parseDependencyString raw = filter (\<lambda>c. c \<noteq> CHR '','') (strip_versions raw)"
  by (simp add: parseDependencyString_def replace_versions replace_commas)

lemma rx_at_Star_only: "\<exists>k. rx_at [Star a] s = Some [k]"
  by (induction s) auto

lemma starts_with_whitespace:
  "match l startsWithWhitespaceParser \<noteq> None \<longleftrightarrow> continuation_line l"
proof (cases l)
  case Nil
  then show ?thesis
    by (simp add: match_def startsWithWhitespaceParser_def continuation_line_def)
next
  case (Cons c cs)
  obtain k where "rx_at [Star hws] cs = Some [k]"
    using rx_at_Star_only by blast
  with Cons show ?thesis
    by (simp add: match_def startsWithWhitespaceParser_def continuation_line_def)
qed

lemma getSummaryFrom_skip:
  "\<forall>l \<in> set pre. match l descriptionSummaryParser = None \<Longrightarrow>
     getSummaryFrom (pre @ ls) = getSummaryFrom ls"
  by (induction pre) simp_all

lemma names_loop:
  "foldl (\<lambda>names line.
            case match line packageNameParser of
              Some m \<Rightarrow> names @ [m ! 1]
            | None \<Rightarrow> names) acc ls =
     acc @ List.map_filter package_value ls"
  by (induction ls arbitrary: acc)
    (simp_all add: List.map_filter_simps package_value_def split: option.splits)

section \<open>The claims\<close>

text \<open>
  C1 (dependency resolution). For every file text and every queried name, the \<open>depends\<close>
  list of the detail result is the dependency token sequence of the target stanza, divider
  tokens included, deduplicated with the first occurrence of each token kept in order, and
  each remaining token \<open>t\<close> mapped to the object with name \<open>t\<close> and with \<open>found\<close> true
  exactly when \<open>t\<close> is the Package value of some stanza of the file. Hence for every object
  of the list, \<open>found\<close> says whether its name is some stanza's Package value.
\<close>

theorem depends_resolution:
  "depends (getInfoFor file packageName) =
     map (\<lambda>t. \<lparr>name = t,
                found = (\<exists>p \<in> set (getAsParagraphs file). stanza_name p = Some t)\<rparr>)
       (first_occurrences (target_tokens file packageName))
   \<and> (\<forall>d \<in> set (depends (getInfoFor file packageName)).
        found d = (\<exists>p \<in> set (getAsParagraphs file). stanza_name p = Some (name d)))"
proof -
  have found: "Some t \<in> set (allPackageNames (scan file packageName)) \<longleftrightarrow>
      (\<exists>p \<in> set (getAsParagraphs file). stanza_name p = Some t)" for t
    by (force simp: scan_names)
  have eq: "depends (getInfoFor file packageName) =
     map (\<lambda>t. \<lparr>name = t,
                found = (\<exists>p \<in> set (getAsParagraphs file). stanza_name p = Some t)\<rparr>)
       (first_occurrences (target_tokens file packageName))"
    by (cases "target_stanza file packageName")
      (simp_all add: getInfoFor_def Let_def findDependenciesFor_def scan_dependenciesTemp
        target_tokens_def new_Set_first_occurrences found)
  show ?thesis
    by (rule conjI[OF eq]) (auto simp: eq)
qed

text \<open>Witness of C1: a target with a repeated token and a divider.\<close>

theorem depends_resolution_witness:
  "depends (getInfoFor
      ''Package: alpha\<newline>Description: short alpha\<newline> long alpha text\<newline>Depends: beta (>= 1.0), gamma, beta | gamma\<newline>\<newline>Package: beta\<newline>Description: short beta''
      ''alpha'') =
     [\<lparr>name = ''beta'', found = True\<rparr>, \<lparr>name = ''gamma'', found = False\<rparr>,
      \<lparr>name = ''|'', found = False\<rparr>]"
proof -
  let ?f = "''Package: alpha\<newline>Description: short alpha\<newline> long alpha text\<newline>Depends: beta (>= 1.0), gamma, beta | gamma\<newline>\<newline>Package: beta\<newline>Description: short beta''"
  have t: "first_occurrences (target_tokens ?f ''alpha'') = [''beta'', ''gamma'', ''|'']"
    by code_simp
  have b: "(\<exists>p \<in> set (getAsParagraphs ?f). stanza_name p = Some ''beta'') = True"
    by code_simp
  have g: "(\<exists>p \<in> set (getAsParagraphs ?f). stanza_name p = Some ''gamma'') = False"
    by code_simp
  have d: "(\<exists>p \<in> set (getAsParagraphs ?f). stanza_name p = Some ''|'') = False"
    by code_simp
  from depends_resolution[of ?f "''alpha''"] show ?thesis
    by (simp only: t b g d list.map)
qed

text \<open>
  C2 (reverse dependencies), as the code has it. Let stanza \<open>A\<close> of the file have the Package
  value \<open>a\<close> and the name \<open>b\<close> among its dependency tokens, let some stanza have the Package
  value \<open>b\<close>, and let \<open>a\<close> and \<open>b\<close> differ. Then the detail query for \<open>b\<close> lists \<open>a\<close> among
  the dependents; and, provided no later stanza of the file carries the name \<open>a\<close> again, the
  detail query for \<open>a\<close> has the object with name \<open>b\<close> and \<open>found\<close> true among its
  depends. For every queried name, the dependents are the names of exactly the stanzas, in
  file order, whose Package value is not the queried name and whose flat dependency token
  list has the queried name as an element.
\<close>

theorem reverse_dependency:
  assumes "getAsParagraphs file = pre @ A # post"
    and "stanza_name A = Some a"
    and "b \<in> set (stanza_tokens A)"
    and "B \<in> set (getAsParagraphs file)"
    and "stanza_name B = Some b"
    and "a \<noteq> b"
  shows "Some a \<in> set (dependents (getInfoFor file b))
     \<and> ((\<forall>p \<in> set post. stanza_name p \<noteq> Some a) \<longrightarrow>
          \<lparr>name = b, found = True\<rparr> \<in> set (depends (getInfoFor file a)))
     \<and> dependents (getInfoFor file q) =
          map stanza_name (filter (is_dependent q) (getAsParagraphs file))"
proof (intro conjI impI)
  have "is_dependent b A"
    using assms(2,3,6) by (simp add: is_dependent_def)
  moreover have "A \<in> set (getAsParagraphs file)"
    using assms(1) by simp
  ultimately show "Some a \<in> set (dependents (getInfoFor file b))"
    using assms(2) by (force simp: getInfoFor_dependents)
next
  assume last: "\<forall>p \<in> set post. stanza_name p \<noteq> Some a"
  let ?d = "getDependenciesFrom (splitIntoLines A)"
  have target: "target_stanza file a = Some A"
    using assms(1,2) last by (rule target_stanza_last)
  have "b \<noteq> []"
    using assms(5) by (simp add: stanza_name_def getNameFrom_not_empty)
  with assms(3) have d: "?d \<noteq> []"
    by (auto simp: stanza_tokens_def split_def)
  have "Some b \<in> set (allPackageNames (scan file a))"
    using assms(4,5) by (force simp: scan_names)
  moreover have "b \<in> set (new_Set (split ?d '' ''))"
    using assms(3) by (simp add: set_new_Set stanza_tokens_def)
  ultimately show "\<lparr>name = b, found = True\<rparr> \<in> set (depends (getInfoFor file a))"
    using d by (force simp: getInfoFor_def Let_def findDependenciesFor_def
        scan_dependenciesTemp target)
next
  show "dependents (getInfoFor file q) =
          map stanza_name (filter (is_dependent q) (getAsParagraphs file))"
    by (rule getInfoFor_dependents)
qed

text \<open>
  Witness of C2: the two stanzas of the scenario, and the dependents of a name that no
  stanza carries.
\<close>

theorem reverse_dependency_witness:
  "Some ''alpha'' \<in> set (dependents (getInfoFor
      ''Package: alpha\<newline>Depends: beta (>= 1.0), gamma\<newline>\<newline>Package: beta'' ''beta''))
   \<and> \<lparr>name = ''beta'', found = True\<rparr> \<in> set (depends (getInfoFor
      ''Package: alpha\<newline>Depends: beta (>= 1.0), gamma\<newline>\<newline>Package: beta'' ''alpha''))
   \<and> dependents (getInfoFor
      ''Package: alpha\<newline>Depends: beta (>= 1.0), gamma\<newline>\<newline>Package: beta'' ''gamma'') =
       [Some ''alpha'']"
proof -
  let ?f = "''Package: alpha\<newline>Depends: beta (>= 1.0), gamma\<newline>\<newline>Package: beta''"
  let ?A = "''Package: alpha\<newline>Depends: beta (>= 1.0), gamma''"
  let ?B = "''Package: beta''"
  have h1: "getAsParagraphs ?f = [] @ ?A # [?B]" by code_simp
  have h2: "stanza_name ?A = Some ''alpha''" by code_simp
  have h3: "''beta'' \<in> set (stanza_tokens ?A)" by code_simp
  have h4: "?B \<in> set (getAsParagraphs ?f)" by code_simp
  have h5: "stanza_name ?B = Some ''beta''" by code_simp
  have h6: "''alpha'' \<noteq> ''beta''" by simp
  have h7: "\<forall>p \<in> set [?B]. stanza_name p \<noteq> Some ''alpha''" by code_simp
  have v: "map stanza_name (filter (is_dependent ''gamma'') (getAsParagraphs ?f)) = [Some ''alpha'']"
    by code_simp
  from reverse_dependency[OF h1 h2 h3 h4 h5 h6, of "''gamma''"] h7 v show ?thesis
    by simp
qed

text \<open>
  C2 as stated fails when the name of \<open>A\<close> occurs again later in the file: the first stanza
  depends on \<open>b\<close>, a stanza \<open>b\<close> exists, and the detail query for \<open>a\<close> has no depends at all,
  because the last stanza named \<open>a\<close> is the one that counts.
\<close>

theorem reverse_dependency_counterexample:
  "stanza_name (getAsParagraphs ''Package: a\<newline>Depends: b\<newline>\<newline>Package: b\<newline>\<newline>Package: a'' ! 0) = Some ''a''
   \<and> ''b'' \<in> set (stanza_tokens (getAsParagraphs ''Package: a\<newline>Depends: b\<newline>\<newline>Package: b\<newline>\<newline>Package: a'' ! 0))
   \<and> stanza_name (getAsParagraphs ''Package: a\<newline>Depends: b\<newline>\<newline>Package: b\<newline>\<newline>Package: a'' ! 1) = Some ''b''
   \<and> depends (getInfoFor ''Package: a\<newline>Depends: b\<newline>\<newline>Package: b\<newline>\<newline>Package: a'' ''a'') = []"
  by code_simp

text \<open>
  C3 (last match wins). When the stanza \<open>p\<close> is the last one of the file whose Package value
  is the queried name (others with that name may precede it), the summary, the description
  and the dependency text of the detail query are those of \<open>p\<close>, the depends are resolved
  from the dependency text of \<open>p\<close>, and the scan has gone through every stanza: it has
  recorded the name of each, and the dependents come from the stanzas before \<open>p\<close> and from
  those after it.
\<close>

theorem last_match_wins:
  assumes "getAsParagraphs file = pre @ p # post"
    and "stanza_name p = Some packageName"
    and "\<forall>p' \<in> set post. stanza_name p' \<noteq> Some packageName"
  shows "summary (getInfoFor file packageName) = getSummaryFrom (splitIntoLines p)
     \<and> description (getInfoFor file packageName) = getDescriptionFrom (splitIntoLines p)
     \<and> dependenciesTemp (scan file packageName) = getDependenciesFrom (splitIntoLines p)
     \<and> depends (getInfoFor file packageName) =
         findDependenciesFor (getDependenciesFrom (splitIntoLines p))
           (map stanza_name (pre @ p # post))
     \<and> allPackageNames (scan file packageName) = map stanza_name (pre @ p # post)
     \<and> dependents (getInfoFor file packageName) =
         map stanza_name (filter (is_dependent packageName) pre) @
         map stanza_name (filter (is_dependent packageName) post)"
proof -
  have fields:
    "summary_var (scan file packageName) = getSummaryFrom (splitIntoLines p)"
    "description_var (scan file packageName) = getDescriptionFrom (splitIntoLines p)"
    "dependenciesTemp (scan file packageName) = getDependenciesFrom (splitIntoLines p)"
    using loop_last_target[OF assms(2,3), of locals0 pre] assms(1)
    by (simp_all add: scan_def)
  have names: "allPackageNames (scan file packageName) = map stanza_name (pre @ p # post)"
    using assms(1) by (simp add: scan_names)
  have "\<not> is_dependent packageName p"
    using assms(2) by (simp add: is_dependent_def)
  then have deps: "dependents (getInfoFor file packageName) =
      map stanza_name (filter (is_dependent packageName) pre) @
      map stanza_name (filter (is_dependent packageName) post)"
    using assms(1) by (simp add: getInfoFor_dependents)
  show ?thesis
    using fields names deps by (simp add: getInfoFor_def Let_def)
qed

text \<open>
  Witness of C3: two stanzas named \<open>x\<close>, and stanzas that depend on \<open>x\<close> before the first,
  between the two and after the last.
\<close>

theorem last_match_wins_witness:
  "summary (getInfoFor
     ''Package: u\<newline>Depends: x\<newline>\<newline>Package: x\<newline>Description: first\<newline> one\<newline>Depends: a\<newline>\<newline>Package: v\<newline>Depends: x\<newline>\<newline>Package: x\<newline>Description: second\<newline> two\<newline>Depends: b\<newline>\<newline>Package: w\<newline>Depends: x''
     ''x'') = Some ''second''
   \<and> description (getInfoFor
     ''Package: u\<newline>Depends: x\<newline>\<newline>Package: x\<newline>Description: first\<newline> one\<newline>Depends: a\<newline>\<newline>Package: v\<newline>Depends: x\<newline>\<newline>Package: x\<newline>Description: second\<newline> two\<newline>Depends: b\<newline>\<newline>Package: w\<newline>Depends: x''
     ''x'') = ''two''
   \<and> depends (getInfoFor
     ''Package: u\<newline>Depends: x\<newline>\<newline>Package: x\<newline>Description: first\<newline> one\<newline>Depends: a\<newline>\<newline>Package: v\<newline>Depends: x\<newline>\<newline>Package: x\<newline>Description: second\<newline> two\<newline>Depends: b\<newline>\<newline>Package: w\<newline>Depends: x''
     ''x'') = [\<lparr>name = ''b'', found = False\<rparr>]
   \<and> dependents (getInfoFor
     ''Package: u\<newline>Depends: x\<newline>\<newline>Package: x\<newline>Description: first\<newline> one\<newline>Depends: a\<newline>\<newline>Package: v\<newline>Depends: x\<newline>\<newline>Package: x\<newline>Description: second\<newline> two\<newline>Depends: b\<newline>\<newline>Package: w\<newline>Depends: x''
     ''x'') = [Some ''u'', Some ''v'', Some ''w'']"
proof -
  let ?f = "''Package: u\<newline>Depends: x\<newline>\<newline>Package: x\<newline>Description: first\<newline> one\<newline>Depends: a\<newline>\<newline>Package: v\<newline>Depends: x\<newline>\<newline>Package: x\<newline>Description: second\<newline> two\<newline>Depends: b\<newline>\<newline>Package: w\<newline>Depends: x''"
  let ?pre = "[''Package: u\<newline>Depends: x'', ''Package: x\<newline>Description: first\<newline> one\<newline>Depends: a'',
               ''Package: v\<newline>Depends: x'']"
  let ?p = "''Package: x\<newline>Description: second\<newline> two\<newline>Depends: b''"
  let ?post = "[''Package: w\<newline>Depends: x'']"
  have h1: "getAsParagraphs ?f = ?pre @ ?p # ?post" by code_simp
  have h2: "stanza_name ?p = Some ''x''" by code_simp
  have h3: "\<forall>p' \<in> set ?post. stanza_name p' \<noteq> Some ''x''" by code_simp
  have v1: "getSummaryFrom (splitIntoLines ?p) = Some ''second''" by code_simp
  have v2: "getDescriptionFrom (splitIntoLines ?p) = ''two''" by code_simp
  have v3: "findDependenciesFor (getDependenciesFrom (splitIntoLines ?p))
              (map stanza_name (?pre @ ?p # ?post)) = [\<lparr>name = ''b'', found = False\<rparr>]"
    by code_simp
  have v4: "map stanza_name (filter (is_dependent ''x'') ?pre) @
            map stanza_name (filter (is_dependent ''x'') ?post) =
              [Some ''u'', Some ''v'', Some ''w'']"
    by code_simp
  from last_match_wins[OF h1 h2 h3] show ?thesis
    by (simp only: v1 v2 v3 v4)
qed

text \<open>
  C4 (unknown name). When no stanza of the file has the queried name as its Package value,
  the detail query returns the object with the empty summary, the empty description, no
  depends, and as dependents the names of the stanzas, in file order, whose dependency
  tokens include the queried name. The query is a total function: it has no failing branch.
\<close>

theorem unknown_name:
  assumes "\<forall>p \<in> set (getAsParagraphs file). stanza_name p \<noteq> Some packageName"
  shows "getInfoFor file packageName =
     \<lparr>summary = Some [], description = [], depends = [],
      dependents = map stanza_name
        (filter (\<lambda>p. packageName \<in> set (stanza_tokens p)) (getAsParagraphs file))\<rparr>"
proof -
  have "summary_var (scan file packageName) = Some []"
    "description_var (scan file packageName) = []"
    "dependenciesTemp (scan file packageName) = []"
    using loop_no_target[OF assms, of locals0] by (simp_all add: scan_def locals0_def)
  moreover have "filter (is_dependent packageName) (getAsParagraphs file) =
      filter (\<lambda>p. packageName \<in> set (stanza_tokens p)) (getAsParagraphs file)"
    using assms by (auto simp: is_dependent_def intro: filter_cong)
  ultimately show ?thesis
    by (simp add: getInfoFor_def Let_def findDependenciesFor_def scan_dependents)
qed

text \<open>Witness of C4: a name that is depended on and that no stanza carries.\<close>

theorem unknown_name_witness:
  "getInfoFor
     ''Package: alpha\<newline>Description: short alpha\<newline> long alpha text\<newline>Depends: beta (>= 1.0), gamma\<newline>\<newline>Package: beta\<newline>Description: short beta''
     ''gamma'' =
   \<lparr>summary = Some [], description = [], depends = [], dependents = [Some ''alpha'']\<rparr>"
proof -
  let ?f = "''Package: alpha\<newline>Description: short alpha\<newline> long alpha text\<newline>Depends: beta (>= 1.0), gamma\<newline>\<newline>Package: beta\<newline>Description: short beta''"
  have h: "\<forall>p \<in> set (getAsParagraphs ?f). stanza_name p \<noteq> Some ''gamma''" by code_simp
  have v: "map stanza_name (filter (\<lambda>p. ''gamma'' \<in> set (stanza_tokens p)) (getAsParagraphs ?f)) =
             [Some ''alpha'']"
    by code_simp
  from unknown_name[OF h] show ?thesis
    by (simp only: v)
qed

text \<open>
  C5 (dependency tokenizer), as the code has it. The dependency text is the raw value with
  every version constraint removed and then every comma removed. Splitting it on single
  spaces discards nothing: joining the tokens with single spaces gives the text back. So the
  token sequence has an empty token exactly when the text is empty, starts or ends with a
  space, or has two adjacent spaces; and the depends result, which has no tokens for the
  empty text, has an object with the empty name exactly when the text is not empty and
  starts or ends with a space or has two adjacent spaces.
\<close>

theorem dependency_tokenizer:
  "parseDependencyString raw = filter (\<lambda>c. c \<noteq> CHR '','') (strip_versions raw)
   \<and> join (split (parseDependencyString raw) '' '') '' '' = parseDependencyString raw
   \<and> ([] \<in> set (split (parseDependencyString raw) '' '') \<longleftrightarrow>
        parseDependencyString raw = [] \<or> hd (parseDependencyString raw) = CHR '' '' \<or>
        last (parseDependencyString raw) = CHR '' '' \<or>
        sublist ''  '' (parseDependencyString raw))
   \<and> ((\<exists>d \<in> set (findDependenciesFor (parseDependencyString raw) names). name d = []) \<longleftrightarrow>
        parseDependencyString raw \<noteq> [] \<and>
        (hd (parseDependencyString raw) = CHR '' '' \<or>
         last (parseDependencyString raw) = CHR '' '' \<or>
         sublist ''  '' (parseDependencyString raw)))"
proof (intro conjI)
  let ?s = "parseDependencyString raw"
  show "?s = filter (\<lambda>c. c \<noteq> CHR '','') (strip_versions raw)"
    by (rule parseDependencyString_spec)
  show "join (split ?s '' '') '' '' = ?s"
    by (rule join_split)
  show "[] \<in> set (split ?s '' '') \<longleftrightarrow>
        ?s = [] \<or> hd ?s = CHR '' '' \<or> last ?s = CHR '' '' \<or> sublist ''  '' ?s"
    by (rule empty_piece_split)
  have "(\<exists>d \<in> set (findDependenciesFor ?s names). name d = []) \<longleftrightarrow>
          ?s \<noteq> [] \<and> [] \<in> set (split ?s '' '')"
    by (auto simp: findDependenciesFor_def Let_def set_new_Set)
  then show "(\<exists>d \<in> set (findDependenciesFor ?s names). name d = []) \<longleftrightarrow>
        ?s \<noteq> [] \<and> (hd ?s = CHR '' '' \<or> last ?s = CHR '' '' \<or> sublist ''  '' ?s)"
    by (auto simp: empty_piece_split)
qed

text \<open>
  C5 as stated fails: two spaces after a comma leave an empty token in the token sequence,
  and an object with the empty name in the depends result.
\<close>

theorem dependency_tokenizer_counterexample:
  "split (parseDependencyString ''a,  b'') '' '' = [''a'', [], ''b'']
   \<and> depends (getInfoFor ''Package: x\<newline>Depends: a,  b'' ''x'') =
       [\<lparr>name = ''a'', found = False\<rparr>, \<lparr>name = [], found = False\<rparr>,
        \<lparr>name = ''b'', found = False\<rparr>]"
  by code_simp

text \<open>
  C6 (description continuation), as the code has it. In a stanza whose first
  \<^verbatim>\<open>Description:\<close> line carries the value \<open>v\<close>, followed by continuation lines and then
  by nothing or by a line that is no continuation line, with no other line of the stanza
  matching the \<^verbatim>\<open>Description:\<close> pattern, the summary is \<open>v\<close> and the description is the
  concatenation of the continuation lines, each taken whole with its leading white space
  and with no separator inserted, trimmed of surrounding white space. For the lines
  \<^verbatim>\<open>Description: short\<close>, \<^verbatim>\<open> more text\<close>, \<^verbatim>\<open> continued\<close> this is the summary \<^verbatim>\<open>short\<close> and the
  description \<^verbatim>\<open>more text continued\<close>.
\<close>

theorem description_continuation:
  assumes "\<forall>l \<in> set pre. match l descriptionSummaryParser = None"
    and "\<forall>c \<in> set pad. accepts hws c"
    and "v \<noteq> []" and "\<not> accepts hws (hd v)" and "\<forall>c \<in> set v. \<not> lineTerminator c"
    and "\<forall>l \<in> set conts. continuation_line l"
    and "\<forall>l \<in> set post. match l descriptionSummaryParser = None"
    and "post \<noteq> [] \<longrightarrow> \<not> continuation_line (hd post)"
  shows "getSummaryFrom (pre @ (''Description:'' @ pad @ v) # conts @ post) = Some v
     \<and> getDescriptionFrom (pre @ (''Description:'' @ pad @ v) # conts @ post) =
         trim (concat conts)"
proof -
  let ?d = "''Description:'' @ pad @ v"
  have d: "match ?d descriptionSummaryParser = Some [?d, v]"
    unfolding descriptionSummaryParser_def using assms(2-5) by (rule match_field_line)
  have "getSummaryFrom (pre @ ?d # conts @ post) = Some v"
    using d by (simp add: getSummaryFrom_skip[OF assms(1)])
  moreover have "description_loop [] False (pre @ ?d # conts @ post) = conts"
  proof (rule description_loop_shape[OF assms(1) _ _ assms(7)])
    show "match ?d descriptionSummaryParser \<noteq> None"
      using d by simp
    show "\<forall>l \<in> set conts. match l startsWithWhitespaceParser \<noteq> None"
      using assms(6) starts_with_whitespace by blast
    show "match (hd post) startsWithWhitespaceParser = None" if "post \<noteq> []"
      using that assms(8) starts_with_whitespace[of "hd post"] by auto
  qed
  ultimately show ?thesis
    by (simp add: getDescriptionFrom_def joinDescriptionLines_def join_empty_separator)
qed

text \<open>Witness of C6: the three lines of the claim.\<close>

theorem description_continuation_witness:
  "getSummaryFrom [''Description: short'', '' more text'', '' continued''] = Some ''short''
   \<and> getDescriptionFrom [''Description: short'', '' more text'', '' continued''] =
       ''more text continued''"
proof -
  have h1: "\<forall>l \<in> set []. match l descriptionSummaryParser = None" by simp
  have h2: "\<forall>c \<in> set '' ''. accepts hws c" by (simp add: hws_def)
  have h3: "''short'' \<noteq> []" by simp
  have h4: "\<not> accepts hws (hd ''short'')" by (simp add: hws_def)
  have h5: "\<forall>c \<in> set ''short''. \<not> lineTerminator c" by (simp add: lineTerminator_def)
  have h6: "\<forall>l \<in> set ['' more text'', '' continued'']. continuation_line l"
    by (simp add: continuation_line_def hws_def)
  have h7: "\<forall>l \<in> set []. match l descriptionSummaryParser = None" by simp
  have h8: "[] \<noteq> [] \<longrightarrow> \<not> continuation_line (hd ([] :: string list))" by simp
  have v: "trim (concat ['' more text'', '' continued'']) = ''more text continued''"
    by code_simp
  from description_continuation[OF h1 h2 h3 h4 h5 h6 h7 h8] v show ?thesis
    by simp
qed

text \<open>
  C6 as stated fails: the description of the three lines keeps the space that begins the
  second continuation line, so it is not \<^verbatim>\<open>more textcontinued\<close>.
\<close>

theorem description_continuation_counterexample:
  "getDescriptionFrom [''Description: short'', '' more text'', '' continued''] =
     ''more text continued''
   \<and> getDescriptionFrom [''Description: short'', '' more text'', '' continued''] \<noteq>
     ''more textcontinued''"
  by code_simp

text \<open>
  C7 (field-value trimming). The claim takes the extracted value to be free of trailing
  horizontal white space. On a field line that ends with a space the code returns the value
  with that space: the group \<^verbatim>\<open>(.+)\<close> is greedy and takes the trailing white space before the
  class after it is tried.
\<close>

theorem trailing_whitespace_kept:
  "getNameFrom [''Package: foo ''] = Some ''foo ''
   \<and> getSummaryFrom [''Description: short ''] = Some ''short ''
   \<and> getDependenciesFrom [''Depends: bar ''] = ''bar ''
   \<and> getPackageNames ''Package: foo '' = [''foo '']"
  by code_simp

text \<open>
  C8 (name list). The name-list query returns, in file order, the Package value of every
  line of the file that matches the \<^verbatim>\<open>Package:\<close> pattern, one entry for each such line and
  so with duplicates kept: a file with exactly \<open>K\<close> matching lines gives exactly \<open>K\<close> entries.
\<close>

theorem name_list:
  "getPackageNames file = List.map_filter package_value (splitIntoLines file)
   \<and> (length (filter (\<lambda>l. match l packageNameParser \<noteq> None) (splitIntoLines file)) = K \<longrightarrow>
        length (getPackageNames file) = K)"
proof -
  have eq: "getPackageNames file = List.map_filter package_value (splitIntoLines file)"
    by (simp add: getPackageNames_def names_loop)
  have "length (List.map_filter package_value ls) =
          length (filter (\<lambda>l. match l packageNameParser \<noteq> None) ls)" for ls
    by (induction ls) (auto simp: List.map_filter_simps package_value_def split: option.splits)
  with eq show ?thesis by simp
qed

text \<open>
  Witness of C8: three matching lines, two of them with the same name, and a line that has
  the pattern's text but not at its start.
\<close>

theorem name_list_witness:
  "getPackageNames ''Package: zeta\<newline>Depends: alpha\<newline>\<newline>Package: alpha\<newline>Description: Package: no\<newline>\<newline>Package: zeta'' =
     [''zeta'', ''alpha'', ''zeta'']
   \<and> length (getPackageNames ''Package: zeta\<newline>Depends: alpha\<newline>\<newline>Package: alpha\<newline>Description: Package: no\<newline>\<newline>Package: zeta'') = 3"
proof -
  let ?f = "''Package: zeta\<newline>Depends: alpha\<newline>\<newline>Package: alpha\<newline>Description: Package: no\<newline>\<newline>Package: zeta''"
  have h: "length (filter (\<lambda>l. match l packageNameParser \<noteq> None) (splitIntoLines ?f)) = 3"
    by code_simp
  have v: "List.map_filter package_value (splitIntoLines ?f) = [''zeta'', ''alpha'', ''zeta'']"
    by code_simp
  from name_list[of ?f 3] h v show ?thesis
    by simp
qed

text \<open>
  C9 (the pipe is padding). On a field line where characters of the class \<^verbatim>\<open>[ |\t]\<close>, so
  spaces, pipes and tabs in any mix, stand between the colon and a value that does not
  begin with one of them, the extracted value is the value alone, the pipes stripped; this
  holds for \<^verbatim>\<open>Package:\<close>, \<^verbatim>\<open>Description:\<close> and \<^verbatim>\<open>Depends:\<close> lines alike.
\<close>

theorem pipe_is_padding:
  assumes "set pad \<subseteq> {CHR '' '', CHR ''|'', CHR 0x09}"
    and "v \<noteq> []"
    and "hd v \<notin> {CHR '' '', CHR ''|'', CHR 0x09}"
    and "\<forall>c \<in> set v. \<not> lineTerminator c"
  shows "getNameFrom ((''Package:'' @ pad @ v) # rest) = Some v
     \<and> getSummaryFrom ((''Description:'' @ pad @ v) # rest) = Some v
     \<and> getDependenciesFrom ((''Depends:'' @ pad @ v) # rest) = parseDependencyString v"
proof -
  have pad: "\<forall>c \<in> set pad. accepts hws c"
    using assms(1) by (auto simp: hws_def)
  have hd: "\<not> accepts hws (hd v)"
    using assms(3) by (simp add: hws_def)
  have "match (f @ pad @ v) (field_line f) = Some [f @ pad @ v, v]" for f
    using pad assms(2) hd assms(4) by (rule match_field_line)
  then show ?thesis
    by (simp add: packageNameParser_def descriptionSummaryParser_def dependencyParser_def
        del: append_Cons)
qed

text \<open>Witness of C9: the line \<^verbatim>\<open>Package:|foo\<close>.\<close>

theorem pipe_is_padding_witness:
  "getNameFrom [''Package:|foo''] = Some ''foo''
   \<and> getSummaryFrom [''Description:|| short''] = Some ''short''
   \<and> getDependenciesFrom [''Depends: |bar''] = ''bar''"
proof -
  have a: "set ''|'' \<subseteq> {CHR '' '', CHR ''|'', CHR 0x09}" by simp
  have b: "''foo'' \<noteq> []" by simp
  have c: "hd ''foo'' \<notin> {CHR '' '', CHR ''|'', CHR 0x09}" by simp
  have d: "\<forall>c \<in> set ''foo''. \<not> lineTerminator c" by (simp add: lineTerminator_def)
  have s: "getSummaryFrom [''Description:|| short''] = Some ''short''" by code_simp
  have t: "getDependenciesFrom [''Depends: |bar''] = ''bar''" by code_simp
  from pipe_is_padding[OF a b c d, of "[]"] s t show ?thesis
    by simp
qed

text \<open>
  C10 (nameless stanza). A stanza of the file with no line matching the \<^verbatim>\<open>Package:\<close>
  pattern has the absent value as its name; the scan records that absent value in the full
  name list, and when the dependency tokens of the stanza include the queried name, the
  absent value is appended to the dependents.
\<close>

theorem nameless_stanza:
  assumes "p \<in> set (getAsParagraphs file)"
    and "\<forall>l \<in> set (splitIntoLines p). match l packageNameParser = None"
  shows "stanza_name p = None
     \<and> None \<in> set (allPackageNames (scan file packageName))
     \<and> (packageName \<in> set (stanza_tokens p) \<longrightarrow>
          None \<in> set (dependents (getInfoFor file packageName)))"
proof -
  have n: "stanza_name p = None"
    using assms(2) by (simp add: stanza_name_def getNameFrom_None)
  then have "None \<in> set (allPackageNames (scan file packageName))"
    using assms(1) by (force simp: scan_names)
  moreover have "None \<in> set (dependents (getInfoFor file packageName))"
    if "packageName \<in> set (stanza_tokens p)"
  proof -
    have "is_dependent packageName p"
      using n that by (simp add: is_dependent_def)
    with assms(1) n show ?thesis
      by (force simp: getInfoFor_dependents)
  qed
  ultimately show ?thesis using n by simp
qed

text \<open>Witness of C10: a stanza with a \<^verbatim>\<open>Depends:\<close> line only.\<close>

theorem nameless_stanza_witness:
  "dependents (getInfoFor ''Depends: x\<newline>\<newline>Package: x'' ''x'') = [None]
   \<and> allPackageNames (scan ''Depends: x\<newline>\<newline>Package: x'' ''x'') = [None, Some ''x'']
   \<and> None \<in> set (dependents (getInfoFor ''Depends: x\<newline>\<newline>Package: x'' ''x''))
   \<and> None \<in> set (allPackageNames (scan ''Depends: x\<newline>\<newline>Package: x'' ''x''))"
proof -
  let ?f = "''Depends: x\<newline>\<newline>Package: x''"
  have h1: "''Depends: x'' \<in> set (getAsParagraphs ?f)" by code_simp
  have h2: "\<forall>l \<in> set (splitIntoLines ''Depends: x''). match l packageNameParser = None"
    by code_simp
  have h3: "''x'' \<in> set (stanza_tokens ''Depends: x'')" by code_simp
  have v1: "dependents (getInfoFor ?f ''x'') = [None]" by code_simp
  have v2: "allPackageNames (scan ?f ''x'') = [None, Some ''x'']" by code_simp
  from nameless_stanza[OF h1 h2, of "''x''"] h3 v1 v2 show ?thesis
    by simp
qed

end
